theory Spec2Isabelle
  imports Main "HOL-Library.Sublist" "HOL-Library.Word"
begin

section \<open>Permalink derivation\<close>

text \<open>
  The tutorial's \<^verbatim>\<open>src/_pages/_pages.json\<close> computes every page's permalink with
  \<^verbatim>\<open><%- page.filePathStem.replace('/_pages', '').replace('/index', '') %>/index.html\<close>.

  \<^verbatim>\<open>String.prototype.replace\<close> with a string pattern replaces the first occurrence of
  the pattern, scanning from the left, and leaves the string alone when there is none.
  The empty pattern matches at position 0. A string is the list of its code units; the
  replacement text is taken literally, which is what JavaScript does for a replacement
  without a dollar sign (both replacements here are empty).
\<close>

fun js_replace :: "'a list \<Rightarrow> 'a list \<Rightarrow> 'a list \<Rightarrow> 'a list" where
  "js_replace [] pat rep = (if pat = [] then rep else [])"
| "js_replace (c # cs) pat rep =
     (if prefix pat (c # cs) then rep @ drop (length pat) (c # cs)
      else c # js_replace cs pat rep)"

definition permalink :: "string \<Rightarrow> string" where
  "permalink filePathStem =
     js_replace (js_replace filePathStem ''/_pages'' '''') ''/index'' '''' @ ''/index.html''"

section \<open>Cache busting\<close>

subsection \<open>The environment of a build\<close>

type_synonym path = string
type_synonym bytes = "8 word list"

text \<open>The error codes of Node's file system, and the exception that carries one.\<close>

datatype fs_error = ENOENT | EACCES | EISDIR

datatype js_error = FsError fs_error path

text \<open>
  What a build can observe and change: the environment variable \<^verbatim>\<open>ELEVENTY_ENV\<close>
  (\<open>None\<close> when it is unset), the disk (what reading the file at a path gives), the wall
  clock as the sequence of values that successive calls of \<^verbatim>\<open>Date.now()\<close> return,
  the number of such calls made so far, and the paths handed to the disk for reading, in
  order, whether the read succeeded or not. Nothing in the source writes to the disk or
  sets the variable, so no operation below changes these two fields.
\<close>

record world =
  ELEVENTY_ENV :: "string option"
  disk :: "path \<Rightarrow> fs_error + bytes"
  clock :: "nat \<Rightarrow> int"
  ticks :: nat
  reads :: "path list"

definition Date_now :: "world \<Rightarrow> int \<times> world" where
  "Date_now w = (clock w (ticks w), w\<lparr>ticks := Suc (ticks w)\<rparr>)"

text \<open>
  \<^verbatim>\<open>md5File.sync(path)\<close> of the md5-file package (an external dependency): it reads
  the file and returns the hexadecimal MD5 digest of its bytes, and throws the file
  system's error when the file cannot be read. The digest function itself is the
  parameter \<open>md5hex\<close>. The source passes a second argument, a callback, which the
  synchronous function does not use.
\<close>

definition md5File_sync :: "(bytes \<Rightarrow> string) \<Rightarrow> path \<Rightarrow> world \<Rightarrow> (js_error + string) \<times> world" where
  "md5File_sync md5hex path w =
     (case disk w path of
        Inl code \<Rightarrow> (Inl (FsError code path), w\<lparr>reads := reads w @ [path]\<rparr>)
      | Inr content \<Rightarrow> (Inr (md5hex content), w\<lparr>reads := reads w @ [path]\<rparr>))"

subsection \<open>Objects\<close>

text \<open>
  A plain object is the list of its own properties in insertion order, which is the order
  in which \<^verbatim>\<open>Object.entries\<close> enumerates keys that are not array indices; the keys
  of the source are names. The value \<open>bust\<close> is a string (the digest) or a number (the
  timestamp).
\<close>

datatype token = Str string | Num int

type_synonym 'v obj = "(string \<times> 'v) list"

definition Object_entries :: "'v obj \<Rightarrow> (string \<times> 'v) list" where
  "Object_entries ob = ob"

fun put_own :: "'v obj \<Rightarrow> string \<Rightarrow> 'v \<Rightarrow> 'v obj" where
  "put_own [] key v = [(key, v)]"
| "put_own ((k, u) # rest) key v =
     (if k = key then (k, v) # rest else (k, u) # put_own rest key v)"

text \<open>
  \<^verbatim>\<open>acc[key] = bust\<close>: an existing property keeps its place and takes the new value,
  a new one goes to the end. Assigning a string or a number to \<^verbatim>\<open>__proto__\<close>
  reaches the inherited setter, which ignores a value that is not an object.
\<close>

definition obj_set :: "token obj \<Rightarrow> string \<Rightarrow> token \<Rightarrow> token obj" where
  "obj_set acc key bust = (if key = ''__proto__'' then acc else put_own acc key bust)"

text \<open>\<^verbatim>\<open>cacheBust.mainCss\<close> in a template: the value of an own property.\<close>

definition obj_get :: "'v obj \<Rightarrow> string \<Rightarrow> 'v option" where
  "obj_get ob key = map_of ob key"

text \<open>
  An object literal has each key once, and cannot define an own property called
  \<^verbatim>\<open>__proto__\<close>.
\<close>

definition registry_ok :: "path obj \<Rightarrow> bool" where
  "registry_ok reg \<longleftrightarrow> distinct (map fst reg) \<and> ''__proto__'' \<notin> set (map fst reg)"

subsection \<open>The resolver\<close>

text \<open>
  \<^verbatim>\<open>Array.prototype.reduce(callback, initialValue)\<close> for a callback that has effects
  and may throw: the elements are visited from left to right, and an exception ends the
  loop and is the outcome.
\<close>

fun reduce ::
  "('a \<Rightarrow> 'b \<Rightarrow> world \<Rightarrow> (js_error + 'a) \<times> world) \<Rightarrow> 'a \<Rightarrow> 'b list \<Rightarrow> world \<Rightarrow> (js_error + 'a) \<times> world" where
  "reduce f acc [] w = (Inr acc, w)"
| "reduce f acc (x # xs) w =
     (case f acc x w of
        (Inl e, w') \<Rightarrow> (Inl e, w')
      | (Inr acc', w') \<Rightarrow> reduce f acc' xs w')"

text \<open>
  The callback of \<^verbatim>\<open>cacheBust\<close>:
  \<^verbatim>\<open>(acc, [key, path]) => { const now = Date.now();
       const bust = process.env.ELEVENTY_ENV === 'production' ? md5File.sync(path, ...) : now;
       acc[key] = bust; return acc; }\<close>
\<close>

definition cacheBust_callback ::
  "(bytes \<Rightarrow> string) \<Rightarrow> token obj \<Rightarrow> string \<times> path \<Rightarrow> world \<Rightarrow> (js_error + token obj) \<times> world" where
  "cacheBust_callback md5hex acc entry w =
     (case entry of (key, path) \<Rightarrow>
        (case Date_now w of (now, w1) \<Rightarrow>
           (if ELEVENTY_ENV w1 = Some ''production''
            then (case md5File_sync md5hex path w1 of
                    (Inl e, w2) \<Rightarrow> (Inl e, w2)
                  | (Inr hash, w2) \<Rightarrow> (Inr (obj_set acc key (Str hash)), w2))
            else (Inr (obj_set acc key (Num now)), w1))))"

text \<open>The registry that the source declares, and the resolver over any registry.\<close>

definition files :: "path obj" where
  "files =
     [(''mainCss'', ''./src/compiled-assets/main.css''),
      (''mainJs'', ''./src/compiled-assets/main.js''),
      (''vendorJs'', ''./src/compiled-assets/vendor.js'')]"

definition cacheBust_over ::
  "path obj \<Rightarrow> (bytes \<Rightarrow> string) \<Rightarrow> world \<Rightarrow> (js_error + token obj) \<times> world" where
  "cacheBust_over reg md5hex w = reduce (cacheBust_callback md5hex) [] (Object_entries reg) w"

definition cacheBust :: "(bytes \<Rightarrow> string) \<Rightarrow> world \<Rightarrow> (js_error + token obj) \<times> world" where
  "cacheBust md5hex w = cacheBust_over files md5hex w"

subsection \<open>Example builds\<close>

text \<open>
  Concrete inputs for the closed theorems below: a stand-in for the digest function, a
  clock that advances by one millisecond between two readings and one that stands still,
  a disk before any asset has been compiled, one with every asset, one with the style
  sheet only and one on which the script exists but may not be read, and the world at the
  start of a build.
\<close>

definition digest_stub :: "bytes \<Rightarrow> string" where
  "digest_stub content = replicate (length content) CHR ''f''"

definition ticking :: "nat \<Rightarrow> int" where
  "ticking n = 1000 + int n"

definition frozen :: "nat \<Rightarrow> int" where
  "frozen n = 1000"

definition nothing_built :: "path \<Rightarrow> fs_error + bytes" where
  "nothing_built p = Inl ENOENT"

definition all_built :: "path \<Rightarrow> fs_error + bytes" where
  "all_built p =
     (if p = ''./src/compiled-assets/main.css'' then Inr [98, 111, 100, 121]
      else if p = ''./src/compiled-assets/main.js'' then Inr [59]
      else if p = ''./src/compiled-assets/vendor.js'' then Inr [59]
      else Inl ENOENT)"

definition css_only :: "path \<Rightarrow> fs_error + bytes" where
  "css_only p =
     (if p = ''./src/compiled-assets/main.css'' then Inr [98, 111, 100, 121] else Inl ENOENT)"

definition js_locked :: "path \<Rightarrow> fs_error + bytes" where
  "js_locked p =
     (if p = ''./src/compiled-assets/main.css'' then Inr [98, 111, 100, 121]
      else if p = ''./src/compiled-assets/main.js'' then Inl EACCES
      else Inl ENOENT)"

definition build :: "string \<Rightarrow> (path \<Rightarrow> fs_error + bytes) \<Rightarrow> (nat \<Rightarrow> int) \<Rightarrow> world" where
  "build mode d c = \<lparr>ELEVENTY_ENV = Some mode, disk = d, clock = c, ticks = 0, reads = []\<rparr>"

section \<open>Permalinks\<close>

text \<open>
  Claim C4. The stems \<^verbatim>\<open>/_pages/index\<close>, \<^verbatim>\<open>/_pages/foo/bar\<close> and
  \<^verbatim>\<open>/_pages/foo/baz/index\<close> are mapped to \<^verbatim>\<open>/index.html\<close>,
  \<^verbatim>\<open>/foo/bar/index.html\<close> and \<^verbatim>\<open>/foo/baz/index.html\<close>.
\<close>

theorem permalink_examples:
  "permalink ''/_pages/index'' = ''/index.html'' \<and>
   permalink ''/_pages/foo/bar'' = ''/foo/bar/index.html'' \<and>
   permalink ''/_pages/foo/baz/index'' = ''/foo/baz/index.html''"
  by (simp add: permalink_def)

text \<open>
  What \<^verbatim>\<open>replace\<close> does in general: nothing when the pattern does not occur, and
  otherwise it removes the leftmost occurrence, wherever that is.
\<close>

lemma js_replace_absent: "\<not> sublist pat s \<Longrightarrow> js_replace s pat rep = s"
proof (induction s)
  case Nil
  then show ?case by auto
next
  case (Cons c cs)
  have "\<not> prefix pat (c # cs)" using Cons.prems by (meson prefix_imp_sublist)
  moreover have "\<not> sublist pat cs" using Cons.prems by (meson sublist_Cons_right)
  ultimately show ?case using Cons.IH by simp
qed

lemma js_replace_first:
  "pat \<noteq> [] \<Longrightarrow> \<not> sublist pat (a @ butlast pat) \<Longrightarrow> js_replace (a @ pat @ b) pat rep = a @ rep @ b"
proof (induction a)
  case Nil
  then obtain c cs where "pat = c # cs" by (cases pat) auto
  then show ?case by simp
next
  case (Cons x a)
  have np: "\<not> prefix pat (x # a @ pat @ b)"
  proof
    assume p: "prefix pat (x # a @ pat @ b)"
    have split: "x # a @ pat @ b = (x # a @ butlast pat) @ (last pat # b)"
      using Cons.prems(1) by simp
    have "prefix pat (x # a @ butlast pat)"
    proof -
      from p split have "prefix pat ((x # a @ butlast pat) @ (last pat # b))" by simp
      then consider "prefix pat (x # a @ butlast pat)"
        | us where "pat = (x # a @ butlast pat) @ us"
        unfolding prefix_append by blast
      then show ?thesis
      proof cases
        case 1 then show ?thesis .
      next
        case 2
        then have "length pat = length (x # a @ butlast pat) + length us" by (metis length_append)
        then have "us = []" using Cons.prems(1) by (cases pat rule: rev_cases) auto
        with 2 show ?thesis by simp
      qed
    qed
    then have "sublist pat ((x # a) @ butlast pat)" by (simp add: prefix_imp_sublist)
    with Cons.prems(2) show False by simp
  qed
  have "\<not> sublist pat (a @ butlast pat)" using Cons.prems(2) by (simp add: sublist_Cons_right)
  then show ?case using Cons np by simp
qed


lemma permalink_without_index:
  assumes "\<not> sublist ''/index'' (js_replace stem ''/_pages'' [])"
  shows "permalink stem = js_replace stem ''/_pages'' [] @ ''/index.html''"
  using assms by (simp add: permalink_def js_replace_absent)

lemma permalink_leftmost_index:
  assumes "js_replace stem ''/_pages'' [] = a @ ''/index'' @ b"
    and "\<not> sublist ''/index'' (a @ ''/inde'')"
  shows "permalink stem = a @ b @ ''/index.html''"
proof -
  have "js_replace (a @ ''/index'' @ b) ''/index'' [] = a @ [] @ b"
    using assms(2) by (intro js_replace_first) simp_all
  then show ?thesis using assms(1) by (simp add: permalink_def)
qed

text \<open>
  Claim C3. The tutorial describes the second step as removing a trailing
  \<^verbatim>\<open>/index\<close>, so that a stem whose remaining path does not end in an index
  segment keeps that path. The code removes the leftmost \<^verbatim>\<open>/index\<close> instead: the
  page \<^verbatim>\<open>src/_pages/indexing/guide.md\<close>, whose remaining path
  \<^verbatim>\<open>/indexing/guide\<close> has no index segment at all, loses the first six characters
  of that path.
\<close>

theorem permalink_inner_index:
  "permalink ''/_pages/indexing/guide'' = ''ing/guide/index.html''"
  by (simp add: permalink_def)

section \<open>The resolver, step by step\<close>

lemma callback_dev:
  "ELEVENTY_ENV w \<noteq> Some ''production'' \<Longrightarrow>
   cacheBust_callback md5hex acc (key, path) w =
     (Inr (obj_set acc key (Num (clock w (ticks w)))), w\<lparr>ticks := Suc (ticks w)\<rparr>)"
  by (simp add: cacheBust_callback_def Date_now_def)

lemma callback_prod:
  "ELEVENTY_ENV w = Some ''production'' \<Longrightarrow>
   cacheBust_callback md5hex acc (key, path) w =
     (case disk w path of
        Inl code \<Rightarrow> (Inl (FsError code path), w\<lparr>ticks := Suc (ticks w), reads := reads w @ [path]\<rparr>)
      | Inr content \<Rightarrow> (Inr (obj_set acc key (Str (md5hex content))),
           w\<lparr>ticks := Suc (ticks w), reads := reads w @ [path]\<rparr>))"
  by (simp add: cacheBust_callback_def Date_now_def md5File_sync_def split: sum.splits)

lemma put_own_keys:
  "map fst (put_own acc key v) = (if key \<in> set (map fst acc) then map fst acc else map fst acc @ [key])"
  by (induction acc key v rule: put_own.induct) auto

lemma put_own_fresh: "key \<notin> set (map fst acc) \<Longrightarrow> put_own acc key v = acc @ [(key, v)]"
  by (induction acc key v rule: put_own.induct) auto


lemma callback_frame:
  "cacheBust_callback md5hex acc entry w = (r, w') \<Longrightarrow>
   disk w' = disk w \<and> ELEVENTY_ENV w' = ELEVENTY_ENV w \<and> clock w' = clock w"
  by (cases entry)
     (auto simp: cacheBust_callback_def Date_now_def md5File_sync_def split: if_splits sum.splits)

lemma reduce_frame:
  "reduce (cacheBust_callback md5hex) acc es w = (r, w') \<Longrightarrow>
   disk w' = disk w \<and> ELEVENTY_ENV w' = ELEVENTY_ENV w \<and> clock w' = clock w"
proof (induction es arbitrary: acc w)
  case Nil
  then show ?case by simp
next
  case (Cons e es)
  obtain r1 w1 where step: "cacheBust_callback md5hex acc e w = (r1, w1)" by force
  note fr = callback_frame [OF step]
  show ?case
  proof (cases r1)
    case (Inl err)
    with step Cons.prems fr show ?thesis by simp
  next
    case (Inr acc1)
    with step Cons.prems have "reduce (cacheBust_callback md5hex) acc1 es w1 = (r, w')" by simp
    from Cons.IH [OF this] fr show ?thesis by simp
  qed
qed

lemma callback_sets:
  "cacheBust_callback md5hex acc (key, path) w = (Inr acc', w') \<Longrightarrow> \<exists>v. acc' = obj_set acc key v"
  by (auto simp: cacheBust_callback_def Date_now_def md5File_sync_def split: if_splits sum.splits)

lemma obj_set_keys:
  "key \<noteq> ''__proto__'' \<Longrightarrow> key \<notin> set (map fst acc) \<Longrightarrow> map fst (obj_set acc key v) = map fst acc @ [key]"
  by (simp add: obj_set_def put_own_keys)

lemma reduce_keys:
  "reduce (cacheBust_callback md5hex) acc es w = (Inr table, w') \<Longrightarrow>
   distinct (map fst es) \<Longrightarrow> ''__proto__'' \<notin> set (map fst es) \<Longrightarrow>
   set (map fst es) \<inter> set (map fst acc) = {} \<Longrightarrow>
   map fst table = map fst acc @ map fst es"
proof (induction es arbitrary: acc w)
  case Nil
  then show ?case by simp
next
  case (Cons e es)
  obtain key path where e: "e = (key, path)" by (cases e)
  obtain r1 w1 where step: "cacheBust_callback md5hex acc (key, path) w = (r1, w1)" by force
  from Cons.prems(1) step e obtain acc1 where r1: "r1 = Inr acc1"
    by (cases r1) auto
  from callback_sets step r1 obtain v where acc1: "acc1 = obj_set acc key v" by blast
  have k: "key \<noteq> ''__proto__''" "key \<notin> set (map fst acc)" "key \<notin> set (map fst es)"
    using Cons.prems e by auto
  have keys1: "map fst acc1 = map fst acc @ [key]"
    using acc1 k obj_set_keys by simp
  have run: "reduce (cacheBust_callback md5hex) acc1 es w1 = (Inr table, w')"
    using Cons.prems(1) step r1 e by simp
  have "map fst table = map fst acc1 @ map fst es"
  proof (rule Cons.IH [OF run])
    show "distinct (map fst es)" using Cons.prems(2) by simp
    show "''__proto__'' \<notin> set (map fst es)" using Cons.prems(3) by simp
    show "set (map fst es) \<inter> set (map fst acc1) = {}"
      using Cons.prems(4) k keys1 by auto
  qed
  then show ?case using keys1 e by simp
qed

lemma reduce_dev:
  "ELEVENTY_ENV w \<noteq> Some ''production'' \<Longrightarrow>
   reduce (cacheBust_callback md5hex) acc es w =
     (Inr (foldl (\<lambda>a (e, t). obj_set a (fst e) (Num t)) acc
             (zip es (map (clock w) [ticks w ..< ticks w + length es]))),
      w\<lparr>ticks := ticks w + length es\<rparr>)"
proof (induction es arbitrary: acc w)
  case Nil
  then show ?case by simp
next
  case (Cons e es)
  obtain key path where e: "e = (key, path)" by (cases e)
  let ?w1 = "w\<lparr>ticks := Suc (ticks w)\<rparr>"
  have step: "cacheBust_callback md5hex acc e w = (Inr (obj_set acc key (Num (clock w (ticks w)))), ?w1)"
    using Cons.prems e by (simp add: callback_dev)
  have dev1: "ELEVENTY_ENV ?w1 \<noteq> Some ''production''" using Cons.prems by simp
  have upt: "[ticks w ..< ticks w + length (e # es)] = ticks w # [Suc (ticks w) ..< Suc (ticks w) + length es]"
  proof -
    have "[ticks w ..< ticks w + length (e # es)] = ticks w # [Suc (ticks w) ..< ticks w + length (e # es)]"
      by (rule upt_conv_Cons) simp
    then show ?thesis by (simp del: upt_Suc)
  qed
  show ?case
    unfolding upt using step Cons.IH [OF dev1] e by (simp del: upt_Suc)
qed

lemma reduce_append:
  "reduce f acc (xs @ ys) w =
     (case reduce f acc xs w of
        (Inl e, w') \<Rightarrow> (Inl e, w')
      | (Inr acc', w') \<Rightarrow> reduce f acc' ys w')"
  by (induction xs arbitrary: acc w) (auto split: prod.splits sum.splits)

lemma reduce_prod_ok:
  "ELEVENTY_ENV w = Some ''production'' \<Longrightarrow>
   \<forall>e\<in>set es. \<exists>content. disk w (snd e) = Inr content \<Longrightarrow>
   reduce (cacheBust_callback md5hex) acc es w =
     (Inr (foldl (\<lambda>a e. obj_set a (fst e) (Str (md5hex (projr (disk w (snd e)))))) acc es),
      w\<lparr>ticks := ticks w + length es, reads := reads w @ map snd es\<rparr>)"
proof (induction es arbitrary: acc w)
  case Nil
  then show ?case by simp
next
  case (Cons e es)
  obtain key path where e: "e = (key, path)" by (cases e)
  from Cons.prems(2) e obtain content where c: "disk w path = Inr content" by auto
  let ?w1 = "w\<lparr>ticks := Suc (ticks w), reads := reads w @ [path]\<rparr>"
  have step: "cacheBust_callback md5hex acc e w = (Inr (obj_set acc key (Str (md5hex content))), ?w1)"
    using Cons.prems(1) e c by (simp add: callback_prod)
  have p1: "ELEVENTY_ENV ?w1 = Some ''production''" using Cons.prems(1) by simp
  have r1: "\<forall>e\<in>set es. \<exists>content. disk ?w1 (snd e) = Inr content" using Cons.prems(2) by simp
  show ?case
    using step Cons.IH [OF p1 r1] e c by simp
qed

lemma reduce_prod_fail:
  assumes prod: "ELEVENTY_ENV w = Some ''production''"
    and pre: "\<forall>e\<in>set pre. \<exists>content. disk w (snd e) = Inr content"
    and bad: "disk w path = Inl code"
  shows "reduce (cacheBust_callback md5hex) acc (pre @ (key, path) # post) w =
     (Inl (FsError code path),
      w\<lparr>ticks := Suc (ticks w + length pre), reads := reads w @ map snd pre @ [path]\<rparr>)"
  using prod bad
  by (simp add: reduce_append reduce_prod_ok [OF prod pre] callback_prod)

lemma foldl_obj_set_fresh:
  "distinct (map kf xs) \<Longrightarrow> ''__proto__'' \<notin> set (map kf xs) \<Longrightarrow>
   set (map kf xs) \<inter> set (map fst acc) = {} \<Longrightarrow>
   foldl (\<lambda>a x. obj_set a (kf x) (vf x)) acc xs = acc @ map (\<lambda>x. (kf x, vf x)) xs"
proof (induction xs arbitrary: acc)
  case Nil
  then show ?case by simp
next
  case (Cons x xs)
  have k: "kf x \<noteq> ''__proto__''" "kf x \<notin> set (map fst acc)" "kf x \<notin> set (map kf xs)"
    using Cons.prems by auto
  have s: "obj_set acc (kf x) (vf x) = acc @ [(kf x, vf x)]"
    using k by (simp add: obj_set_def put_own_fresh)
  have "foldl (\<lambda>a x. obj_set a (kf x) (vf x)) (acc @ [(kf x, vf x)]) xs =
      (acc @ [(kf x, vf x)]) @ map (\<lambda>x. (kf x, vf x)) xs"
    using Cons.prems k by (intro Cons.IH) auto
  then show ?case using s by simp
qed

lemma reduce_prod_same:
  "ELEVENTY_ENV w = Some ''production'' \<Longrightarrow> ELEVENTY_ENV v = Some ''production'' \<Longrightarrow>
   \<forall>e\<in>set es. disk v (snd e) = disk w (snd e) \<Longrightarrow>
   fst (reduce (cacheBust_callback md5hex) acc es w) = fst (reduce (cacheBust_callback md5hex) acc es v)"
proof (induction es arbitrary: acc w v)
  case Nil
  then show ?case by simp
next
  case (Cons e es)
  obtain key path where e: "e = (key, path)" by (cases e)
  have same: "disk v path = disk w path" using Cons.prems(3) e by simp
  show ?case
  proof (cases "disk w path")
    case (Inl code)
    then show ?thesis using Cons.prems(1,2) same e by (simp add: callback_prod)
  next
    case (Inr content)
    let ?w1 = "w\<lparr>ticks := Suc (ticks w), reads := reads w @ [path]\<rparr>"
    let ?v1 = "v\<lparr>ticks := Suc (ticks v), reads := reads v @ [path]\<rparr>"
    have "fst (reduce (cacheBust_callback md5hex) (obj_set acc key (Str (md5hex content))) es ?w1) =
          fst (reduce (cacheBust_callback md5hex) (obj_set acc key (Str (md5hex content))) es ?v1)"
      using Cons.prems by (intro Cons.IH) auto
    then show ?thesis using Cons.prems(1,2) same e Inr by (simp add: callback_prod)
  qed
qed

lemma files_ok: "registry_ok files"
  by (simp add: registry_ok_def files_def)

lemma cacheBust_over_dev:
  assumes dev: "ELEVENTY_ENV w \<noteq> Some ''production''" and ok: "registry_ok reg"
  shows "cacheBust_over reg md5hex w =
     (Inr (map2 (\<lambda>(key, path) t. (key, Num t)) reg (map (clock w) [ticks w ..< ticks w + length reg])),
      w\<lparr>ticks := ticks w + length reg\<rparr>)"
proof -
  let ?xs = "zip reg (map (clock w) [ticks w ..< ticks w + length reg])"
  have keys: "map (\<lambda>x. fst (fst x)) ?xs = map fst reg"
    by (simp add: map_fst_zip flip: map_map [unfolded comp_def])
  have "foldl (\<lambda>a (e, t). obj_set a (fst e) (Num t)) [] ?xs =
        foldl (\<lambda>a x. obj_set a (fst (fst x)) (Num (snd x))) [] ?xs"
    by (simp add: case_prod_unfold)
  also have "\<dots> = [] @ map (\<lambda>x. (fst (fst x), Num (snd x))) ?xs"
    using ok unfolding registry_ok_def
    by (intro foldl_obj_set_fresh) (simp_all only: keys, simp_all)
  also have "\<dots> = map2 (\<lambda>(key, path) t. (key, Num t)) reg (map (clock w) [ticks w ..< ticks w + length reg])"
    by (simp add: case_prod_unfold)
  finally show ?thesis
    using reduce_dev [OF dev, of md5hex "[]" reg]
    by (simp add: cacheBust_over_def Object_entries_def)
qed

lemma not_isl_readable: "\<not> isl (d :: fs_error + bytes) \<Longrightarrow> \<exists>content. d = Inr content"
  by (cases d) simp_all

lemma first_unreadable:
  assumes m: "(key, path) \<in> set reg" and bad: "disk w path = Inl code"
  shows "\<exists>pre k p c post. reg = pre @ (k, p) # post \<and>
     (\<forall>e\<in>set pre. \<exists>content. disk w (snd e) = Inr content) \<and> disk w p = Inl c"
proof -
  have "isl (disk w (snd (key, path)))" using bad by simp
  with m have "\<exists>e\<in>set reg. isl (disk w (snd e))" by (rule bexI [rotated])
  from split_list_first_prop [OF this]
  obtain pre e post where s: "reg = pre @ e # post" and e: "isl (disk w (snd e))"
    and pre: "\<forall>y\<in>set pre. \<not> isl (disk w (snd y))"
    by auto
  from e obtain c where c: "disk w (snd e) = Inl c" by (cases "disk w (snd e)") simp_all
  have r: "\<forall>y\<in>set pre. \<exists>content. disk w (snd y) = Inr content"
    using pre not_isl_readable by simp
  have "reg = pre @ (fst e, snd e) # post" using s by simp
  with r c show ?thesis by (intro exI conjI)
qed

lemma cacheBust_over_prod_ok:
  assumes prod: "ELEVENTY_ENV w = Some ''production''" and ok: "registry_ok reg"
    and readable: "\<forall>(key, path)\<in>set reg. \<exists>content. disk w path = Inr content"
  shows "cacheBust_over reg md5hex w =
     (Inr (map (\<lambda>(key, path). (key, Str (md5hex (projr (disk w path))))) reg),
      w\<lparr>ticks := ticks w + length reg, reads := reads w @ map snd reg\<rparr>)"
proof -
  have r: "\<forall>e\<in>set reg. \<exists>content. disk w (snd e) = Inr content"
    using readable by auto
  have "foldl (\<lambda>a e. obj_set a (fst e) (Str (md5hex (projr (disk w (snd e)))))) [] reg =
        [] @ map (\<lambda>e. (fst e, Str (md5hex (projr (disk w (snd e)))))) reg"
    using ok unfolding registry_ok_def by (intro foldl_obj_set_fresh) simp_all
  then show ?thesis
    using reduce_prod_ok [OF prod r, of md5hex "[]"]
    by (simp add: cacheBust_over_def Object_entries_def case_prod_unfold)
qed

lemma registry_lookup:
  "distinct (map fst reg) \<Longrightarrow> (key, path) \<in> set reg \<Longrightarrow>
   obj_get (map (\<lambda>(k, p). (k, f k p)) reg) key = Some (f key path)"
proof -
  assume d: "distinct (map fst reg)" and m: "(key, path) \<in> set reg"
  have "map fst (map (\<lambda>(k, p). (k, f k p)) reg) = map fst reg"
    by (induction reg) auto
  then have "distinct (map fst (map (\<lambda>(k, p). (k, f k p)) reg))" using d by (simp only:)
  moreover have "(key, f key path) \<in> set (map (\<lambda>(k, p). (k, f k p)) reg)"
    using m by force
  ultimately show ?thesis unfolding obj_get_def by (rule map_of_is_SomeI)
qed

lemma cacheBust_over_keys:
  assumes ok: "registry_ok reg" and run: "fst (cacheBust_over reg md5hex w) = Inr table"
  shows "map fst table = map fst reg"
proof -
  obtain r w' where p: "cacheBust_over reg md5hex w = (r, w')" by (cases "cacheBust_over reg md5hex w")
  with run have "reduce (cacheBust_callback md5hex) [] reg w = (Inr table, w')"
    by (simp add: cacheBust_over_def Object_entries_def)
  from reduce_keys [OF this] ok show ?thesis by (simp add: registry_ok_def)
qed

lemma prod_returns_readable:
  assumes prod: "ELEVENTY_ENV w = Some ''production''"
    and run: "fst (cacheBust_over reg md5hex w) = Inr table"
  shows "\<forall>e\<in>set reg. \<exists>content. disk w (snd e) = Inr content"
proof (rule ccontr)
  assume "\<not> (\<forall>e\<in>set reg. \<exists>content. disk w (snd e) = Inr content)"
  then obtain e where e: "e \<in> set reg" and n: "\<forall>content. disk w (snd e) \<noteq> Inr content" by blast
  then obtain code where c: "disk w (snd e) = Inl code" by (cases "disk w (snd e)") simp_all
  have "(fst e, snd e) \<in> set reg" using e by simp
  from first_unreadable [OF this c]
  obtain pre k p c' post where s: "reg = pre @ (k, p) # post"
    and pre: "\<forall>e\<in>set pre. \<exists>content. disk w (snd e) = Inr content" and c': "disk w p = Inl c'"
    by (elim exE conjE)
  have "fst (reduce (cacheBust_callback md5hex) [] (pre @ (k, p) # post) w) = Inl (FsError c' p)"
    by (simp add: reduce_prod_fail [OF prod pre c'])
  then have "fst (cacheBust_over reg md5hex w) = Inl (FsError c' p)"
    by (simp add: cacheBust_over_def Object_entries_def s)
  with run show False by simp
qed

lemma failure_needs_production:
  assumes ok: "registry_ok reg" and run: "fst (cacheBust_over reg md5hex w) = Inl err"
  shows "ELEVENTY_ENV w = Some ''production'' \<and> (\<exists>(key, path)\<in>set reg. \<exists>code. disk w path = Inl code)"
proof (intro conjI)
  show prod: "ELEVENTY_ENV w = Some ''production''"
  proof (rule ccontr)
    assume "ELEVENTY_ENV w \<noteq> Some ''production''"
    from cacheBust_over_dev [OF this ok, of md5hex] run show False by simp
  qed
  show "\<exists>(key, path)\<in>set reg. \<exists>code. disk w path = Inl code"
  proof (rule ccontr)
    assume n: "\<not> (\<exists>(key, path)\<in>set reg. \<exists>code. disk w path = Inl code)"
    have "\<forall>(key, path)\<in>set reg. \<exists>content. disk w path = Inr content"
    proof (intro ballI, clarify)
      fix key path assume "(key, path) \<in> set reg"
      with n have "\<forall>code. disk w path \<noteq> Inl code" by blast
      then show "\<exists>content. disk w path = Inr content" by (cases "disk w path") simp_all
    qed
    from cacheBust_over_prod_ok [OF prod ok this, of md5hex] run show False by simp
  qed
qed

lemma all_built_run:
  "cacheBust_over files digest_stub (build ''production'' all_built ticking) =
     (Inr [(''mainCss'', Str ''ffff''), (''mainJs'', Str ''f''), (''vendorJs'', Str ''f'')],
      (build ''production'' all_built ticking)
        \<lparr>ticks := 3,
         reads := [''./src/compiled-assets/main.css'', ''./src/compiled-assets/main.js'',
                   ''./src/compiled-assets/vendor.js'']\<rparr>)"
  by (simp add: cacheBust_over_def Object_entries_def files_def build_def all_built_def
      cacheBust_callback_def Date_now_def md5File_sync_def obj_set_def digest_stub_def)

section \<open>Development builds\<close>

text \<open>
  Claim C2, as the code has it. In a build that is not a production build the resolver
  reads the clock once for every registry entry, inside the callback, and the entry takes
  the reading made for it: entry number \<open>i\<close> carries reading number \<open>ticks w + i\<close>. The
  entries carry one common timestamp when the clock gives the same value at each of these
  readings.
\<close>

theorem cacheBust_development_timestamps:
  assumes "ELEVENTY_ENV w \<noteq> Some ''production''" and "registry_ok reg"
  shows "cacheBust_over reg md5hex w =
     (Inr (map2 (\<lambda>(key, path) t. (key, Num t)) reg (map (clock w) [ticks w ..< ticks w + length reg])),
      w\<lparr>ticks := ticks w + length reg\<rparr>) \<and>
    ((\<forall>n\<in>{ticks w ..< ticks w + length reg}. clock w n = t) \<longrightarrow>
       fst (cacheBust_over reg md5hex w) = Inr (map (\<lambda>(key, path). (key, Num t)) reg))"
proof (intro conjI impI)
  show run: "cacheBust_over reg md5hex w =
     (Inr (map2 (\<lambda>(key, path) t. (key, Num t)) reg (map (clock w) [ticks w ..< ticks w + length reg])),
      w\<lparr>ticks := ticks w + length reg\<rparr>)"
    by (rule cacheBust_over_dev [OF assms])
  assume same: "\<forall>n\<in>{ticks w ..< ticks w + length reg}. clock w n = t"
  have "map (clock w) [ticks w ..< ticks w + length reg] = replicate (length reg) t"
  proof (rule nth_equalityI)
    show "length (map (clock w) [ticks w ..< ticks w + length reg]) = length (replicate (length reg) t)"
      by simp
  next
    fix i
    assume "i < length (map (clock w) [ticks w ..< ticks w + length reg])"
    then have i: "i < length reg" by simp
    then have "clock w (ticks w + i) = t" using same by simp
    then show "map (clock w) [ticks w ..< ticks w + length reg] ! i = replicate (length reg) t ! i"
      using i by simp
  qed
  moreover have "map2 (\<lambda>(key, path) t. (key, Num t)) reg (replicate (length reg) t) =
      map (\<lambda>(key, path). (key, Num t)) reg"
    by (rule nth_equalityI) (simp_all add: case_prod_unfold)
  ultimately show "fst (cacheBust_over reg md5hex w) = Inr (map (\<lambda>(key, path). (key, Num t)) reg)"
    using run by simp
qed

theorem cacheBust_development_timestamps_witness:
  "ELEVENTY_ENV (build ''development'' nothing_built frozen) \<noteq> Some ''production'' \<and>
   registry_ok files \<and>
   cacheBust digest_stub (build ''development'' nothing_built frozen) =
     (Inr [(''mainCss'', Num 1000), (''mainJs'', Num 1000), (''vendorJs'', Num 1000)],
      (build ''development'' nothing_built frozen)\<lparr>ticks := 3\<rparr>)"
proof -
  have dev: "ELEVENTY_ENV (build ''development'' nothing_built frozen) \<noteq> Some ''production''"
    by (simp add: build_def)
  from cacheBust_development_timestamps [OF dev files_ok, of digest_stub 1000]
  show ?thesis
    using dev files_ok
    by (simp add: cacheBust_def files_def build_def frozen_def upt_conv_Cons)
qed

text \<open>
  Claim C2 as stated fails: with a clock that advances between the readings, one
  invocation reads it three times and the three entries carry three different tokens.
\<close>

theorem cacheBust_resamples_clock:
  "cacheBust digest_stub (build ''development'' nothing_built ticking) =
     (Inr [(''mainCss'', Num 1000), (''mainJs'', Num 1001), (''vendorJs'', Num 1002)],
      (build ''development'' nothing_built ticking)\<lparr>ticks := 3\<rparr>)"
  by (simp add: cacheBust_def cacheBust_over_def Object_entries_def files_def build_def ticking_def
      cacheBust_callback_def Date_now_def obj_set_def)

text \<open>
  Claim C6. A build that is not a production build never touches the registry's files:
  whatever the disk holds, and so also when some or all of the files are missing, the
  resolver returns a table, and in it the key of entry number \<open>i\<close> holds a number, the
  value that the clock gave at reading number \<open>ticks w + i\<close>, the reading made for that
  entry.
\<close>

theorem cacheBust_development_tolerant:
  assumes dev: "ELEVENTY_ENV w \<noteq> Some ''production''" and ok: "registry_ok reg"
  shows "\<exists>table. fst (cacheBust_over reg md5hex w) = Inr table \<and>
           (\<forall>i<length reg. obj_get table (fst (reg ! i)) = Some (Num (clock w (ticks w + i))))"
proof -
  let ?ts = "map (clock w) [ticks w ..< ticks w + length reg]"
  let ?table = "map2 (\<lambda>(key, path) t. (key, Num t)) reg ?ts"
  have run: "fst (cacheBust_over reg md5hex w) = Inr ?table"
    by (simp add: cacheBust_over_dev [OF dev ok])
  have len: "length ?table = length reg" by simp
  have keys: "map fst ?table = map fst reg"
    by (rule nth_equalityI) (simp_all add: case_prod_unfold)
  have d: "distinct (map fst ?table)"
    using ok by (simp only: keys registry_ok_def)
  have "\<forall>i<length reg. obj_get ?table (fst (reg ! i)) = Some (Num (clock w (ticks w + i)))"
  proof (intro allI impI)
    fix i
    assume i: "i < length reg"
    then have nth: "?table ! i = (fst (reg ! i), Num (clock w (ticks w + i)))"
      by (simp add: case_prod_unfold)
    have "?table ! i \<in> set ?table" using i len by (intro nth_mem) (simp only:)
    then have "(fst (reg ! i), Num (clock w (ticks w + i))) \<in> set ?table"
      by (simp only: nth)
    with d have "map_of ?table (fst (reg ! i)) = Some (Num (clock w (ticks w + i)))"
      by (rule map_of_is_SomeI)
    then show "obj_get ?table (fst (reg ! i)) = Some (Num (clock w (ticks w + i)))"
      by (simp only: obj_get_def)
  qed
  with run show ?thesis by (intro exI conjI)
qed

theorem cacheBust_development_tolerant_witness:
  "ELEVENTY_ENV \<lparr>ELEVENTY_ENV = None, disk = nothing_built, clock = ticking, ticks = 0, reads = []\<rparr>
     \<noteq> Some ''production'' \<and>
   registry_ok files \<and>
   nothing_built ''./src/compiled-assets/main.js'' = Inl ENOENT \<and>
   (\<exists>table. fst (cacheBust digest_stub
        \<lparr>ELEVENTY_ENV = None, disk = nothing_built, clock = ticking, ticks = 0, reads = []\<rparr>) = Inr table \<and>
      obj_get table ''mainJs'' = Some (Num 1001))"
proof -
  let ?w = "\<lparr>ELEVENTY_ENV = None, disk = nothing_built, clock = ticking, ticks = 0, reads = []\<rparr>"
  have dev: "ELEVENTY_ENV ?w \<noteq> Some ''production''" by simp
  from cacheBust_development_tolerant [OF dev files_ok, of digest_stub]
  obtain table where t: "fst (cacheBust_over files digest_stub ?w) = Inr table"
    and all: "\<forall>i<length files. obj_get table (fst (files ! i)) = Some (Num (clock ?w (ticks ?w + i)))"
    by (elim exE conjE)
  have "(1::nat) < length files" by (simp add: files_def)
  with all have "obj_get table (fst (files ! 1)) = Some (Num (clock ?w (ticks ?w + 1)))"
    by (elim allE impE) assumption+
  then have "obj_get table ''mainJs'' = Some (Num 1001)"
    by (simp add: files_def ticking_def)
  with t have "\<exists>table. fst (cacheBust digest_stub ?w) = Inr table \<and>
      obj_get table ''mainJs'' = Some (Num 1001)"
    unfolding cacheBust_def by (intro exI conjI)
  moreover have "nothing_built ''./src/compiled-assets/main.js'' = Inl ENOENT"
    by (simp add: nothing_built_def)
  ultimately show ?thesis using dev files_ok by (intro conjI)
qed

section \<open>Production builds\<close>

text \<open>
  Claim C1. In a production build the callback gives the key of an entry whose file can
  be read the hexadecimal digest of the bytes of that file; and when every file of the
  registry can be read, the resolver returns a table in which the key of every entry
  holds the digest of the entry's file.
\<close>

theorem cacheBust_production_digest:
  assumes "ELEVENTY_ENV w = Some ''production''"
  shows "(\<forall>acc key path content. disk w path = Inr content \<longrightarrow>
           fst (cacheBust_callback md5hex acc (key, path) w) =
             Inr (obj_set acc key (Str (md5hex content)))) \<and>
         (registry_ok reg \<longrightarrow> (\<forall>(key, path)\<in>set reg. \<exists>content. disk w path = Inr content) \<longrightarrow>
           (\<exists>table. fst (cacheBust_over reg md5hex w) = Inr table \<and>
              (\<forall>(key, path)\<in>set reg. \<forall>content. disk w path = Inr content \<longrightarrow>
                 obj_get table key = Some (Str (md5hex content)))))"
proof (intro conjI allI impI)
  fix acc key path content
  assume "disk w path = Inr content"
  then show "fst (cacheBust_callback md5hex acc (key, path) w) =
      Inr (obj_set acc key (Str (md5hex content)))"
    using assms by (simp add: callback_prod)
next
  assume ok: "registry_ok reg"
    and readable: "\<forall>(key, path)\<in>set reg. \<exists>content. disk w path = Inr content"
  let ?table = "map (\<lambda>(key, path). (key, Str (md5hex (projr (disk w path))))) reg"
  have run: "fst (cacheBust_over reg md5hex w) = Inr ?table"
    using cacheBust_over_prod_ok [OF assms ok readable] by simp
  have "\<forall>(key, path)\<in>set reg. \<forall>content. disk w path = Inr content \<longrightarrow>
      obj_get ?table key = Some (Str (md5hex content))"
  proof (intro ballI, clarify)
    fix key path content
    assume m: "(key, path) \<in> set reg" and c: "disk w path = Inr content"
    have "obj_get ?table key = Some (Str (md5hex (projr (disk w path))))"
      using ok m unfolding registry_ok_def by (intro registry_lookup) simp_all
    then show "obj_get ?table key = Some (Str (md5hex content))" using c by simp
  qed
  with run show "\<exists>table. fst (cacheBust_over reg md5hex w) = Inr table \<and>
      (\<forall>(key, path)\<in>set reg. \<forall>content. disk w path = Inr content \<longrightarrow>
         obj_get table key = Some (Str (md5hex content)))"
    by blast
qed


theorem cacheBust_production_digest_witness:
  "ELEVENTY_ENV (build ''production'' all_built frozen) = Some ''production'' \<and>
   registry_ok files \<and>
   disk (build ''production'' all_built frozen) ''./src/compiled-assets/main.css'' = Inr [98, 111, 100, 121] \<and>
   (\<exists>table. fst (cacheBust digest_stub (build ''production'' all_built frozen)) = Inr table \<and>
      obj_get table ''mainCss'' = Some (Str (digest_stub [98, 111, 100, 121])))"
proof -
  let ?w = "build ''production'' all_built frozen"
  let ?P = "\<lambda>table (key, path). \<forall>content. disk ?w path = Inr content \<longrightarrow>
       obj_get table key = Some (Str (digest_stub content))"
  have prod: "ELEVENTY_ENV ?w = Some ''production''" by (simp add: build_def)
  have readable: "\<forall>(key, path)\<in>set files. \<exists>content. disk ?w path = Inr content"
    by (simp add: files_def build_def all_built_def)
  have css: "disk ?w ''./src/compiled-assets/main.css'' = Inr [98, 111, 100, 121]"
    by (simp add: build_def all_built_def)
  have m: "(''mainCss'', ''./src/compiled-assets/main.css'') \<in> set files" by (simp add: files_def)
  have "\<exists>table. fst (cacheBust_over files digest_stub ?w) = Inr table \<and> (\<forall>e\<in>set files. ?P table e)"
    using cacheBust_production_digest [OF prod, of digest_stub files] files_ok readable
    by (elim conjE impE) assumption+
  then obtain table where t: "fst (cacheBust_over files digest_stub ?w) = Inr table"
    and all: "\<forall>e\<in>set files. ?P table e"
    by (elim exE conjE)
  from all m have "?P table (''mainCss'', ''./src/compiled-assets/main.css'')" by (rule bspec)
  then have "obj_get table ''mainCss'' = Some (Str (digest_stub [98, 111, 100, 121]))"
    using css by (simp only: prod.case)
  with t have "\<exists>table. fst (cacheBust digest_stub ?w) = Inr table \<and>
      obj_get table ''mainCss'' = Some (Str (digest_stub [98, 111, 100, 121]))"
    unfolding cacheBust_def by (intro exI conjI)
  with prod files_ok css show ?thesis by (intro conjI)
qed

text \<open>
  Claim C5, as the code has it. In a production build, when some file of the registry
  cannot be read, the resolver ends with the error that the file system raised for the
  first such file, the entries before it having been read: it returns no table, and so no
  timestamp either. The error is the not-found error \<open>ENOENT\<close> when the files that cannot
  be read are missing files.
\<close>

theorem cacheBust_production_first_failure:
  assumes prod: "ELEVENTY_ENV w = Some ''production''"
    and m: "(key, path) \<in> set reg" and bad: "disk w path = Inl code"
  shows "(\<exists>pre k p c post. reg = pre @ (k, p) # post \<and>
            (\<forall>e\<in>set pre. \<exists>content. disk w (snd e) = Inr content) \<and>
            disk w p = Inl c \<and>
            fst (cacheBust_over reg md5hex w) = Inl (FsError c p)) \<and>
         ((\<forall>(k, p)\<in>set reg. \<forall>c. disk w p = Inl c \<longrightarrow> c = ENOENT) \<longrightarrow>
            (\<exists>k p. (k, p) \<in> set reg \<and> disk w p = Inl ENOENT \<and>
               fst (cacheBust_over reg md5hex w) = Inl (FsError ENOENT p)))"
proof -
  from first_unreadable [OF m bad]
  obtain pre k p c post where s: "reg = pre @ (k, p) # post"
    and pre: "\<forall>e\<in>set pre. \<exists>content. disk w (snd e) = Inr content" and c: "disk w p = Inl c"
    by (elim exE conjE)
  have "fst (reduce (cacheBust_callback md5hex) [] (pre @ (k, p) # post) w) = Inl (FsError c p)"
    by (simp add: reduce_prod_fail [OF prod pre c])
  then have run: "fst (cacheBust_over reg md5hex w) = Inl (FsError c p)"
    by (simp add: cacheBust_over_def Object_entries_def s)
  have mem: "(k, p) \<in> set reg" using s by simp
  have first: "\<exists>pre k p c post. reg = pre @ (k, p) # post \<and>
            (\<forall>e\<in>set pre. \<exists>content. disk w (snd e) = Inr content) \<and>
            disk w p = Inl c \<and>
            fst (cacheBust_over reg md5hex w) = Inl (FsError c p)"
    using s pre c run by (intro exI conjI)
  have "\<exists>k p. (k, p) \<in> set reg \<and> disk w p = Inl ENOENT \<and>
               fst (cacheBust_over reg md5hex w) = Inl (FsError ENOENT p)"
    if only: "\<forall>(k, p)\<in>set reg. \<forall>c. disk w p = Inl c \<longrightarrow> c = ENOENT"
  proof -
    from only mem have "case (k, p) of (k, p) \<Rightarrow> \<forall>c. disk w p = Inl c \<longrightarrow> c = ENOENT"
      by (rule bspec)
    then have "\<forall>c. disk w p = Inl c \<longrightarrow> c = ENOENT" by (simp only: prod.case)
    with c have e: "c = ENOENT" by simp
    from mem c run show ?thesis unfolding e by (intro exI conjI)
  qed
  with first show ?thesis by (intro conjI impI)
qed

theorem cacheBust_production_first_failure_witness:
  "ELEVENTY_ENV (build ''production'' css_only frozen) = Some ''production'' \<and>
   (''vendorJs'', ''./src/compiled-assets/vendor.js'') \<in> set files \<and>
   disk (build ''production'' css_only frozen) ''./src/compiled-assets/vendor.js'' = Inl ENOENT \<and>
   (\<exists>k p. (k, p) \<in> set files \<and> disk (build ''production'' css_only frozen) p = Inl ENOENT \<and>
      fst (cacheBust digest_stub (build ''production'' css_only frozen)) = Inl (FsError ENOENT p)) \<and>
   fst (cacheBust digest_stub (build ''production'' css_only frozen)) =
     Inl (FsError ENOENT ''./src/compiled-assets/main.js'')"
proof -
  let ?w = "build ''production'' css_only frozen"
  have prod: "ELEVENTY_ENV ?w = Some ''production''" by (simp add: build_def)
  have m: "(''vendorJs'', ''./src/compiled-assets/vendor.js'') \<in> set files" by (simp add: files_def)
  have js: "disk ?w ''./src/compiled-assets/vendor.js'' = Inl ENOENT"
    by (simp add: build_def css_only_def)
  have only: "\<forall>(k, p)\<in>set files. \<forall>c. disk ?w p = Inl c \<longrightarrow> c = ENOENT"
    by (simp add: files_def build_def css_only_def)
  have "\<exists>k p. (k, p) \<in> set files \<and> disk ?w p = Inl ENOENT \<and>
      fst (cacheBust digest_stub ?w) = Inl (FsError ENOENT p)"
    unfolding cacheBust_def
    by (rule cacheBust_production_first_failure [OF prod m js, THEN conjunct2, THEN mp, OF only])
  moreover have "fst (cacheBust digest_stub ?w) = Inl (FsError ENOENT ''./src/compiled-assets/main.js'')"
    by (simp add: cacheBust_def cacheBust_over_def Object_entries_def files_def build_def
        css_only_def cacheBust_callback_def Date_now_def md5File_sync_def obj_set_def)
  ultimately show ?thesis using prod m js by (intro conjI)
qed

text \<open>
  Claim C5 as stated fails for a file that exists and may not be read: the error that
  ends the resolver is then the permission error of the file system, not a not-found
  error.
\<close>

theorem cacheBust_unreadable_not_enoent:
  "js_locked ''./src/compiled-assets/main.js'' = Inl EACCES \<and>
   fst (cacheBust digest_stub (build ''production'' js_locked frozen)) =
     Inl (FsError EACCES ''./src/compiled-assets/main.js'')"
  by (simp add: cacheBust_def cacheBust_over_def Object_entries_def files_def build_def
      js_locked_def cacheBust_callback_def Date_now_def md5File_sync_def obj_set_def)

text \<open>
  Claim C8. In a production build the outcome depends on the bytes of the registry's
  files and on nothing else: two worlds whose disks agree on the registry's paths give
  the same outcome, whatever their clocks and their histories; a second invocation, right
  after the first, gives the outcome of the first; and two entries whose files hold the
  same bytes receive the same token, whatever their paths.
\<close>

theorem cacheBust_production_deterministic:
  assumes prod: "ELEVENTY_ENV w = Some ''production''"
  shows "(\<forall>v. ELEVENTY_ENV v = Some ''production'' \<and> (\<forall>(key, path)\<in>set reg. disk v path = disk w path) \<longrightarrow>
            fst (cacheBust_over reg md5hex v) = fst (cacheBust_over reg md5hex w)) \<and>
         fst (cacheBust_over reg md5hex (snd (cacheBust_over reg md5hex w))) =
           fst (cacheBust_over reg md5hex w) \<and>
         (registry_ok reg \<longrightarrow>
            (\<forall>table k1 p1 k2 p2.
               fst (cacheBust_over reg md5hex w) = Inr table \<and> (k1, p1) \<in> set reg \<and>
               (k2, p2) \<in> set reg \<and> disk w p1 = disk w p2 \<longrightarrow>
               obj_get table k1 = obj_get table k2))"
proof (intro conjI allI impI)
  fix v :: world
  assume "ELEVENTY_ENV v = Some ''production'' \<and> (\<forall>(key, path)\<in>set reg. disk v path = disk w path)"
  then have v: "ELEVENTY_ENV v = Some ''production''"
    and same: "\<forall>e\<in>set reg. disk v (snd e) = disk w (snd e)" by auto
  from reduce_prod_same [OF prod v same, of md5hex "[]"]
  show "fst (cacheBust_over reg md5hex v) = fst (cacheBust_over reg md5hex w)"
    by (simp add: cacheBust_over_def Object_entries_def)
next
  obtain r w' where p: "reduce (cacheBust_callback md5hex) [] reg w = (r, w')"
    by (cases "reduce (cacheBust_callback md5hex) [] reg w")
  note fr = reduce_frame [OF p]
  have v: "ELEVENTY_ENV w' = Some ''production''" using fr prod by simp
  have same: "\<forall>e\<in>set reg. disk w' (snd e) = disk w (snd e)" using fr by simp
  from reduce_prod_same [OF prod v same, of md5hex "[]"] p
  show "fst (cacheBust_over reg md5hex (snd (cacheBust_over reg md5hex w))) =
      fst (cacheBust_over reg md5hex w)"
    by (simp add: cacheBust_over_def Object_entries_def)
next
  fix table k1 p1 k2 p2
  assume ok: "registry_ok reg"
    and h: "fst (cacheBust_over reg md5hex w) = Inr table \<and> (k1, p1) \<in> set reg \<and>
            (k2, p2) \<in> set reg \<and> disk w p1 = disk w p2"
  then have run: "fst (cacheBust_over reg md5hex w) = Inr table"
    and m1: "(k1, p1) \<in> set reg" and m2: "(k2, p2) \<in> set reg" and eq: "disk w p1 = disk w p2"
    by simp_all
  let ?f = "\<lambda>key path. Str (md5hex (projr (disk w path)))"
  have "\<forall>(key, path)\<in>set reg. \<exists>content. disk w path = Inr content"
    using prod_returns_readable [OF prod run] by auto
  from cacheBust_over_prod_ok [OF prod ok this, of md5hex] run
  have table: "table = map (\<lambda>(key, path). (key, ?f key path)) reg" by simp
  have d: "distinct (map fst reg)" using ok by (simp add: registry_ok_def)
  have "obj_get table k1 = Some (?f k1 p1)" unfolding table using d m1 by (rule registry_lookup)
  moreover have "obj_get table k2 = Some (?f k2 p2)" unfolding table using d m2 by (rule registry_lookup)
  ultimately show "obj_get table k1 = obj_get table k2" using eq by simp
qed

theorem cacheBust_production_deterministic_witness:
  "ELEVENTY_ENV (build ''production'' all_built ticking) = Some ''production'' \<and>
   ELEVENTY_ENV (build ''production'' all_built frozen) = Some ''production'' \<and>
   fst (cacheBust digest_stub (build ''production'' all_built frozen)) =
     fst (cacheBust digest_stub (build ''production'' all_built ticking)) \<and>
   fst (cacheBust digest_stub (snd (cacheBust digest_stub (build ''production'' all_built ticking)))) =
     fst (cacheBust digest_stub (build ''production'' all_built ticking)) \<and>
   fst (cacheBust digest_stub (build ''production'' all_built ticking)) =
     Inr [(''mainCss'', Str ''ffff''), (''mainJs'', Str ''f''), (''vendorJs'', Str ''f'')] \<and>
   all_built ''./src/compiled-assets/main.js'' = all_built ''./src/compiled-assets/vendor.js'' \<and>
   obj_get [(''mainCss'', Str ''ffff''), (''mainJs'', Str ''f''), (''vendorJs'', Str ''f'')] ''mainJs'' =
     obj_get [(''mainCss'', Str ''ffff''), (''mainJs'', Str ''f''), (''vendorJs'', Str ''f'')] ''vendorJs''"
proof -
  let ?w = "build ''production'' all_built ticking"
  let ?v = "build ''production'' all_built frozen"
  let ?T = "[(''mainCss'', Str ''ffff''), (''mainJs'', Str ''f''), (''vendorJs'', Str ''f'')]"
  have prod: "ELEVENTY_ENV ?w = Some ''production''" by (simp add: build_def)
  have v: "ELEVENTY_ENV ?v = Some ''production''" by (simp add: build_def)
  have same: "\<forall>(key, path)\<in>set files. disk ?v path = disk ?w path" by (simp add: build_def)
  have run: "fst (cacheBust_over files digest_stub ?w) = Inr ?T" by (simp add: all_built_run)
  have m1: "(''mainJs'', ''./src/compiled-assets/main.js'') \<in> set files" by (simp add: files_def)
  have m2: "(''vendorJs'', ''./src/compiled-assets/vendor.js'') \<in> set files" by (simp add: files_def)
  have eq: "disk ?w ''./src/compiled-assets/main.js'' = disk ?w ''./src/compiled-assets/vendor.js''"
    by (simp add: build_def all_built_def)
  note det = cacheBust_production_deterministic [OF prod, of files digest_stub]
  from det v same have a: "fst (cacheBust_over files digest_stub ?v) = fst (cacheBust_over files digest_stub ?w)"
    by blast
  have b: "fst (cacheBust_over files digest_stub (snd (cacheBust_over files digest_stub ?w))) =
      fst (cacheBust_over files digest_stub ?w)"
    by (rule det [THEN conjunct2, THEN conjunct1])
  from det files_ok run m1 m2 eq have c: "obj_get ?T ''mainJs'' = obj_get ?T ''vendorJs''"
    by blast
  have e: "all_built ''./src/compiled-assets/main.js'' = all_built ''./src/compiled-assets/vendor.js''"
    by (simp add: all_built_def)
  from prod v a b run e c show ?thesis unfolding cacheBust_def by (intro conjI)
qed

section \<open>Every build\<close>

text \<open>
  Claim C7. The table that the resolver returns has exactly the keys of the registry,
  each once. The resolver returns no table only in a production build in which a file of
  the registry cannot be read.
\<close>

theorem cacheBust_table_keys:
  assumes "registry_ok reg"
  shows "case fst (cacheBust_over reg md5hex w) of
           Inr table \<Rightarrow>
             set (map fst (Object_entries table)) = set (map fst (Object_entries reg)) \<and>
             distinct (map fst (Object_entries table))
         | Inl err \<Rightarrow>
             ELEVENTY_ENV w = Some ''production'' \<and>
             (\<exists>(key, path)\<in>set reg. \<exists>code. disk w path = Inl code)"
proof (cases "fst (cacheBust_over reg md5hex w)")
  case (Inl err)
  with failure_needs_production [OF assms Inl] show ?thesis by simp
next
  case (Inr table)
  from cacheBust_over_keys [OF assms Inr] assms Inr show ?thesis
    by (simp add: Object_entries_def registry_ok_def)
qed

theorem cacheBust_table_keys_witness:
  "registry_ok files \<and>
   fst (cacheBust digest_stub (build ''production'' all_built ticking)) =
     Inr [(''mainCss'', Str ''ffff''), (''mainJs'', Str ''f''), (''vendorJs'', Str ''f'')] \<and>
   set (map fst [(''mainCss'', Str ''ffff''), (''mainJs'', Str ''f''), (''vendorJs'', Str ''f'')]) =
     set (map fst files)"
proof -
  have run: "fst (cacheBust_over files digest_stub (build ''production'' all_built ticking)) =
     Inr [(''mainCss'', Str ''ffff''), (''mainJs'', Str ''f''), (''vendorJs'', Str ''f'')]"
    by (simp add: all_built_run)
  from cacheBust_table_keys [OF files_ok, where md5hex = digest_stub
      and w = "build ''production'' all_built ticking"]
  have "set (map fst [(''mainCss'', Str ''ffff''), (''mainJs'', Str ''f''), (''vendorJs'', Str ''f'')]) =
     set (map fst files)"
    unfolding run by (simp add: Object_entries_def)
  with run files_ok show ?thesis unfolding cacheBust_def by (intro conjI)
qed

text \<open>
  Claim C10. The table of the registry that the source declares lists its keys in the
  order of the declaration: \<^verbatim>\<open>mainCss\<close>, \<^verbatim>\<open>mainJs\<close>, \<^verbatim>\<open>vendorJs\<close>, in
  every build mode.
\<close>

theorem cacheBust_key_order:
  assumes "fst (cacheBust md5hex w) = Inr table"
  shows "map fst (Object_entries table) = [''mainCss'', ''mainJs'', ''vendorJs'']"
proof -
  have "map fst table = map fst files"
    using assms files_ok unfolding cacheBust_def by (intro cacheBust_over_keys)
  then show ?thesis by (simp add: Object_entries_def files_def)
qed

theorem cacheBust_key_order_witness:
  "fst (cacheBust digest_stub (build ''production'' all_built ticking)) =
     Inr [(''mainCss'', Str ''ffff''), (''mainJs'', Str ''f''), (''vendorJs'', Str ''f'')] \<and>
   map fst (Object_entries [(''mainCss'', Str ''ffff''), (''mainJs'', Str ''f''), (''vendorJs'', Str ''f'')]) =
     [''mainCss'', ''mainJs'', ''vendorJs'']"
proof -
  have run: "fst (cacheBust digest_stub (build ''production'' all_built ticking)) =
     Inr [(''mainCss'', Str ''ffff''), (''mainJs'', Str ''f''), (''vendorJs'', Str ''f'')]"
    by (simp add: cacheBust_def all_built_run)
  from run cacheBust_key_order [OF run] show ?thesis by (intro conjI)
qed

text \<open>
  Claim C9. The resolver leaves the disk as it found it. A build that is not a
  production build asks for no file. A production build asks for the files of the
  registry in order, each at most once, stopping at the first that cannot be read; when
  it returns a table it has asked for each file exactly once.
\<close>

theorem cacheBust_file_access:
  "disk (snd (cacheBust_over reg md5hex w)) = disk w \<and>
   (ELEVENTY_ENV w \<noteq> Some ''production'' \<longrightarrow> reads (snd (cacheBust_over reg md5hex w)) = reads w) \<and>
   (ELEVENTY_ENV w = Some ''production'' \<longrightarrow>
      (\<exists>n\<le>length reg. reads (snd (cacheBust_over reg md5hex w)) = reads w @ take n (map snd reg)) \<and>
      (\<forall>table. fst (cacheBust_over reg md5hex w) = Inr table \<longrightarrow>
         reads (snd (cacheBust_over reg md5hex w)) = reads w @ map snd reg))"
proof (intro conjI impI allI)
  obtain r w' where p: "reduce (cacheBust_callback md5hex) [] reg w = (r, w')"
    by (cases "reduce (cacheBust_callback md5hex) [] reg w")
  from reduce_frame [OF p] p show "disk (snd (cacheBust_over reg md5hex w)) = disk w"
    by (simp add: cacheBust_over_def Object_entries_def)
next
  assume "ELEVENTY_ENV w \<noteq> Some ''production''"
  from reduce_dev [OF this, of md5hex "[]" reg]
  show "reads (snd (cacheBust_over reg md5hex w)) = reads w"
    by (simp add: cacheBust_over_def Object_entries_def)
next
  fix table
  assume prod: "ELEVENTY_ENV w = Some ''production''"
    and run: "fst (cacheBust_over reg md5hex w) = Inr table"
  from reduce_prod_ok [OF prod prod_returns_readable [OF prod run], of md5hex "[]"]
  show "reads (snd (cacheBust_over reg md5hex w)) = reads w @ map snd reg"
    by (simp add: cacheBust_over_def Object_entries_def)
next
  assume prod: "ELEVENTY_ENV w = Some ''production''"
  show "\<exists>n\<le>length reg. reads (snd (cacheBust_over reg md5hex w)) = reads w @ take n (map snd reg)"
  proof (cases "\<forall>e\<in>set reg. \<exists>content. disk w (snd e) = Inr content")
    case True
    from reduce_prod_ok [OF prod True, of md5hex "[]"]
    have "reads (snd (cacheBust_over reg md5hex w)) = reads w @ take (length reg) (map snd reg)"
      by (simp add: cacheBust_over_def Object_entries_def)
    then show ?thesis by (intro exI [of _ "length reg"] conjI) simp_all
  next
    case False
    then obtain e where e: "e \<in> set reg" and n: "\<forall>content. disk w (snd e) \<noteq> Inr content" by blast
    then obtain code where c: "disk w (snd e) = Inl code" by (cases "disk w (snd e)") simp_all
    have "(fst e, snd e) \<in> set reg" using e by simp
    from first_unreadable [OF this c]
    obtain pre k p c' post where s: "reg = pre @ (k, p) # post"
      and pre: "\<forall>e\<in>set pre. \<exists>content. disk w (snd e) = Inr content" and c': "disk w p = Inl c'"
      by (elim exE conjE)
    have "reads (snd (reduce (cacheBust_callback md5hex) [] (pre @ (k, p) # post) w)) =
        reads w @ map snd pre @ [p]"
      by (simp add: reduce_prod_fail [OF prod pre c'])
    moreover have "take (Suc (length pre)) (map snd reg) = map snd pre @ [p]"
      by (simp add: s)
    ultimately have "reads (snd (cacheBust_over reg md5hex w)) =
        reads w @ take (Suc (length pre)) (map snd reg)"
      by (simp add: cacheBust_over_def Object_entries_def s)
    moreover have "Suc (length pre) \<le> length reg" by (simp add: s)
    ultimately show ?thesis by (intro exI [of _ "Suc (length pre)"] conjI)
  qed
qed

theorem cacheBust_file_access_witness:
  "ELEVENTY_ENV (build ''development'' all_built ticking) \<noteq> Some ''production'' \<and>
   reads (snd (cacheBust digest_stub (build ''development'' all_built ticking))) = [] \<and>
   ELEVENTY_ENV (build ''production'' all_built ticking) = Some ''production'' \<and>
   reads (snd (cacheBust digest_stub (build ''production'' all_built ticking))) =
     [''./src/compiled-assets/main.css'', ''./src/compiled-assets/main.js'',
      ''./src/compiled-assets/vendor.js''] \<and>
   disk (snd (cacheBust digest_stub (build ''production'' all_built ticking))) = all_built"
proof -
  let ?d = "build ''development'' all_built ticking"
  let ?p = "build ''production'' all_built ticking"
  have dev: "ELEVENTY_ENV ?d \<noteq> Some ''production''" by (simp add: build_def)
  have prod: "ELEVENTY_ENV ?p = Some ''production''" by (simp add: build_def)
  have run: "fst (cacheBust_over files digest_stub ?p) =
      Inr [(''mainCss'', Str ''ffff''), (''mainJs'', Str ''f''), (''vendorJs'', Str ''f'')]"
    by (simp add: all_built_run)
  have "reads (snd (cacheBust_over files digest_stub ?d)) = reads ?d"
    by (rule cacheBust_file_access [of files digest_stub ?d, THEN conjunct2, THEN conjunct1, THEN mp, OF dev])
  then have a: "reads (snd (cacheBust digest_stub ?d)) = []"
    by (simp add: cacheBust_def build_def)
  have "reads (snd (cacheBust_over files digest_stub ?p)) = reads ?p @ map snd files"
    using cacheBust_file_access [of files digest_stub ?p] prod run by blast
  then have b: "reads (snd (cacheBust digest_stub ?p)) =
     [''./src/compiled-assets/main.css'', ''./src/compiled-assets/main.js'',
      ''./src/compiled-assets/vendor.js'']"
    by (simp add: cacheBust_def build_def files_def)
  have "disk (snd (cacheBust_over files digest_stub ?p)) = disk ?p"
    by (rule cacheBust_file_access [of files digest_stub ?p, THEN conjunct1])
  then have c: "disk (snd (cacheBust digest_stub ?p)) = all_built"
    by (simp add: cacheBust_def build_def)
  from dev a prod b c show ?thesis by (intro conjI)
qed

end
